theory Spec2Isabelle
  imports Main
begin

section \<open>The array-backed stack (stack.ts)\<close>

text \<open>
  The class \<^verbatim>\<open>Stack<T>\<close> keeps four fields: the JavaScript array \<^verbatim>\<open>elements\<close>, the
  index \<^verbatim>\<open>topLevel\<close> of the top cell (\<open>-1\<close> for the empty stack), the counter
  \<^verbatim>\<open>length\<close> and the array \<^verbatim>\<open>_poppedHistory\<close>.

  \<^item> \<^verbatim>\<open>elements\<close> is only ever read and written by index, never through its own length,
    so it is a map from indices to values: a cell that was never written reads as
    \<^verbatim>\<open>undefined\<close>, which is \<open>None\<close> here, and a cell that \<^verbatim>\<open>pop\<close> has left behind
    keeps its old value, as the array does.
  \<^item> The numbers are JavaScript numbers used as integers; they are \<open>int\<close> here.
  \<^item> A value of type \<^verbatim>\<open>T | undefined\<close> is an \<open>'a option\<close>.
  \<^item> \<^verbatim>\<open>_poppedHistory\<close> is used through \<^verbatim>\<open>Array.push\<close> and \<^verbatim>\<open>Array.pop\<close> only; it is
    a list whose last entry is the most recent one.
  \<^item> A branch that calls \<^verbatim>\<open>console.error\<close> and returns \<^verbatim>\<open>undefined\<close> is the \<open>Inl\<close> side
    of a sum, tagged with the message it logs.
\<close>

datatype error = Overflow | Underflow

definition MAX_SIZE :: int where
  "MAX_SIZE = 9"

record 'a stack =
  elements :: "int \<Rightarrow> 'a option"
  topLevel :: int
  length_field :: int
  poppedHistory :: "'a option list"

text \<open>The constructor.\<close>

definition new_stack :: "'a stack" where
  "new_stack = \<lparr>elements = (\<lambda>_. None), topLevel = - 1, length_field = 0, poppedHistory = []\<rparr>"

text \<open>\<^verbatim>\<open>Stack.push\<close> (stack.ts, lines 102 to 112).\<close>

definition push :: "'a \<Rightarrow> 'a stack \<Rightarrow> (error + unit) \<times> 'a stack" where
  "push v s =
     (if topLevel s \<ge> MAX_SIZE - 1 then (Inl Overflow, s)
      else
        let s1 = s\<lparr>topLevel := topLevel s + 1\<rparr>;
            s2 = s1\<lparr>elements := (elements s1)(topLevel s1 \<mapsto> v)\<rparr>;
            s3 = s2\<lparr>length_field := length_field s2 + 1\<rparr>
        in (Inr (), s3))"

text \<open>\<^verbatim>\<open>Stack.pop\<close> (stack.ts, lines 135 to 147). The cell itself is not cleared.\<close>

definition pop :: "'a stack \<Rightarrow> (error + 'a option) \<times> 'a stack" where
  "pop s =
     (if topLevel s < 0 then (Inl Underflow, s)
      else
        let v = elements s (topLevel s);
            s1 = s\<lparr>poppedHistory := poppedHistory s @ [v]\<rparr>;
            s2 = s1\<lparr>topLevel := topLevel s1 - 1\<rparr>;
            s3 = s2\<lparr>length_field := length_field s2 - 1\<rparr>
        in (Inr v, s3))"

text \<open>\<^verbatim>\<open>Stack.peek\<close> (stack.ts, lines 169 to 178).\<close>

definition peek :: "'a stack \<Rightarrow> error + 'a option" where
  "peek s = (if topLevel s < 0 then Inl Underflow else Inr (elements s (topLevel s)))"

text \<open>The JavaScript value a call evaluates to: \<^verbatim>\<open>undefined\<close> on the error branch.\<close>

fun returned :: "error + 'a option \<Rightarrow> 'a option" where
  "returned (Inl e) = None"
| "returned (Inr v) = v"

text \<open>
  \<^verbatim>\<open>Array.prototype.pop\<close>, as \<^verbatim>\<open>undo\<close> uses it on the history: it removes the last entry
  and yields it, and on an empty array it yields \<^verbatim>\<open>undefined\<close> and changes nothing.
\<close>

definition array_pop :: "'a option list \<Rightarrow> 'a option \<times> 'a option list" where
  "array_pop xs = (if xs = [] then (None, []) else (last xs, butlast xs))"

text \<open>
  \<^verbatim>\<open>Stack.undo\<close> (stack.ts, lines 203 to 210). The result of the inner \<^verbatim>\<open>push\<close> is
  ignored.
\<close>

definition undo :: "'a stack \<Rightarrow> 'a option \<times> 'a stack" where
  "undo s =
     (let (lastPopped, h) = array_pop (poppedHistory s);
          s1 = s\<lparr>poppedHistory := h\<rparr>
      in case lastPopped of
           Some v \<Rightarrow> (Some v, snd (push v s1))
         | None \<Rightarrow> (None, s1))"

text \<open>
  The element sequence of the stack, bottom to top: the cells \<open>0\<close> to \<open>topLevel\<close>.
\<close>

definition contents :: "'a stack \<Rightarrow> 'a option list" where
  "contents s = map (elements s) [0..topLevel s]"

text \<open>
  The states the class can be in: what the constructor establishes and \<^verbatim>\<open>push\<close>,
  \<^verbatim>\<open>pop\<close> and \<^verbatim>\<open>undo\<close> keep. The counter is the number of cells in use, it never
  exceeds the capacity, and neither a cell in use nor a history entry is \<^verbatim>\<open>undefined\<close>.
\<close>

definition stack_inv :: "'a stack \<Rightarrow> bool" where
  "stack_inv s \<longleftrightarrow>
     - 1 \<le> topLevel s \<and> topLevel s \<le> MAX_SIZE - 1 \<and>
     length_field s = topLevel s + 1 \<and>
     list_all (\<lambda>i. elements s i \<noteq> None) [0..topLevel s] \<and>
     list_all (\<lambda>x. x \<noteq> None) (poppedHistory s)"

text \<open>Running several operations in a row, as the demonstration code does.\<close>

fun pushes :: "'a list \<Rightarrow> 'a stack \<Rightarrow> 'a stack" where
  "pushes [] s = s"
| "pushes (v # vs) s = pushes vs (snd (push v s))"

fun pops :: "nat \<Rightarrow> 'a stack \<Rightarrow> 'a option list \<times> 'a stack" where
  "pops 0 s = ([], s)"
| "pops (Suc n) s =
     (let (r, s1) = pop s; (rs, s2) = pops n s1 in (returned r # rs, s2))"

fun undos :: "nat \<Rightarrow> 'a stack \<Rightarrow> 'a option list \<times> 'a stack" where
  "undos 0 s = ([], s)"
| "undos (Suc n) s =
     (let (u, s1) = undo s; (us, s2) = undos n s1 in (u # us, s2))"

text \<open>The stack of the demonstration code after its nine successful pushes.\<close>

definition full_stack :: "int stack" where
  "full_stack = pushes [1, 2, 3, 4, 5, 6, 7, 8, 9] new_stack"

text \<open>
  That stack after one \<^verbatim>\<open>pop\<close>, and after a further \<^verbatim>\<open>push\<close> that fills it again while
  the popped value is still in the history.
\<close>

definition popped_stack :: "int stack" where
  "popped_stack = snd (pop full_stack)"

definition refilled_stack :: "int stack" where
  "refilled_stack = snd (push 10 popped_stack)"

section \<open>The expression converter (InfixToPostfixAlgorithm.ts)\<close>

text \<open>
  The class \<^verbatim>\<open>InfixToPostfixStack\<close> has the fields of \<^verbatim>\<open>Stack<T>\<close> at type
  \<^verbatim>\<open>string\<close>, and its \<^verbatim>\<open>pop\<close> and \<^verbatim>\<open>peek\<close> are those of \<^verbatim>\<open>Stack<T>\<close> word for word,
  so \<open>pop\<close> and \<open>peek\<close> above stand for them. Its \<^verbatim>\<open>push\<close> (lines 55 to 59) has no
  capacity test.
\<close>

definition InfixToPostfixStack_push :: "'a \<Rightarrow> 'a stack \<Rightarrow> 'a stack" where
  "InfixToPostfixStack_push v s =
     (let s1 = s\<lparr>topLevel := topLevel s + 1\<rparr>;
          s2 = s1\<lparr>elements := (elements s1)(topLevel s1 \<mapsto> v)\<rparr>;
          s3 = s2\<lparr>length_field := length_field s2 + 1\<rparr>
      in s3)"

definition isEmpty :: "'a stack \<Rightarrow> bool" where
  "isEmpty s \<longleftrightarrow> topLevel s < 0"

definition isOperator :: "string \<Rightarrow> bool" where
  "isOperator ch \<longleftrightarrow> ch = ''+'' \<or> ch = ''-'' \<or> ch = ''*'' \<or> ch = ''/''"

definition precedence :: "string \<Rightarrow> nat" where
  "precedence ch =
     (if ch = ''+'' \<or> ch = ''-'' then 1
      else if ch = ''*'' \<or> ch = ''/'' then 2
      else 0)"

text \<open>
  \<^verbatim>\<open>postfixExpression += x\<close> appends the string \<^verbatim>\<open>x\<close>, and the text \<^verbatim>\<open>undefined\<close> when
  \<^verbatim>\<open>x\<close> is \<^verbatim>\<open>undefined\<close>.
\<close>

fun js_to_string :: "string option \<Rightarrow> string" where
  "js_to_string None = ''undefined''"
| "js_to_string (Some t) = t"

text \<open>\<^verbatim>\<open>x || ''\<close>: the empty string when \<^verbatim>\<open>x\<close> is \<^verbatim>\<open>undefined\<close> or empty, else \<^verbatim>\<open>x\<close>.\<close>

fun or_empty :: "string option \<Rightarrow> string" where
  "or_empty None = ''''"
| "or_empty (Some t) = (if t = '''' then '''' else t)"

text \<open>
  The loop of the closing-bracket branch (lines 290 to 292). It has no test for an
  empty stack, so it need not end: a run that never leaves the loop is \<open>None\<close>.
\<close>

partial_function (option) close_while :: "string stack \<Rightarrow> string \<Rightarrow> (string stack \<times> string) option"
  where
  "close_while s postfixExpression =
     (if returned (peek s) \<noteq> Some ''('' \<and> returned (peek s) \<noteq> Some ''{'' \<and>
         returned (peek s) \<noteq> Some ''[''
      then close_while (snd (pop s)) (postfixExpression @ js_to_string (returned (fst (pop s))))
      else Some (s, postfixExpression))"

declare close_while.simps [code]

text \<open>
  The loop of the operator branch (lines 295 to 297). Each round takes one element off a
  non-empty stack.
\<close>

function operator_while :: "string \<Rightarrow> string stack \<Rightarrow> string \<Rightarrow> string stack \<times> string" where
  "operator_while ch s postfixExpression =
     (if \<not> isEmpty s \<and> precedence (or_empty (returned (peek s))) \<ge> precedence ch
      then operator_while ch (snd (pop s))
             (postfixExpression @ js_to_string (returned (fst (pop s))))
      else (s, postfixExpression))"
  by pat_completeness auto
termination
  by (relation "measure (\<lambda>(ch, s, out). nat (topLevel s + 1))")
    (auto simp: isEmpty_def pop_def Let_def)

text \<open>The loop after the scan (lines 303 to 305).\<close>

function drain_while :: "string stack \<Rightarrow> string \<Rightarrow> string stack \<times> string" where
  "drain_while s postfixExpression =
     (if \<not> isEmpty s
      then drain_while (snd (pop s)) (postfixExpression @ js_to_string (returned (fst (pop s))))
      else (s, postfixExpression))"
  by pat_completeness auto
termination
  by (relation "measure (\<lambda>(s, out). nat (topLevel s + 1))")
    (auto simp: isEmpty_def pop_def Let_def)

text \<open>
  The equations of the two terminating loops are unfolded by hand in the proofs below.
\<close>

declare operator_while.simps [simp del] drain_while.simps [simp del]

text \<open>
  The \<^verbatim>\<open>for\<close> loop of \<^verbatim>\<open>convert\<close> (lines 286 to 302) over the characters of the
  expression; the loop variable is a one-character string, written \<open>[c]\<close> where the
  code passes it on.
\<close>

fun convert_for :: "string \<Rightarrow> string stack \<Rightarrow> string \<Rightarrow> (string stack \<times> string) option" where
  "convert_for [] s postfixExpression = Some (s, postfixExpression)"
| "convert_for (c # cs) s postfixExpression =
     (if c = CHR ''('' \<or> c = CHR ''{'' \<or> c = CHR ''[''
      then convert_for cs (InfixToPostfixStack_push [c] s) postfixExpression
      else if c = CHR '')'' \<or> c = CHR ''}'' \<or> c = CHR '']''
      then (case close_while s postfixExpression of
              None \<Rightarrow> None
            | Some (s1, out1) \<Rightarrow> convert_for cs (snd (pop s1)) out1)
      else if isOperator [c]
      then (case operator_while [c] s postfixExpression of
              (s1, out1) \<Rightarrow> convert_for cs (InfixToPostfixStack_push [c] s1) out1)
      else convert_for cs s (postfixExpression @ [c]))"

text \<open>
  \<^verbatim>\<open>InfixToPostfixStack.convert\<close> (lines 284 to 307). The receiver is the stack the
  method works on; the module calls it on the one instance \<^verbatim>\<open>infixToPostfix\<close>
  (line 330), so the stack a call leaves behind is the stack the next call starts on.
  The result is the returned string and the stack left behind, or \<open>None\<close> when the
  call does not return.
\<close>

definition convert :: "string \<Rightarrow> string stack \<Rightarrow> (string \<times> string stack) option" where
  "convert expression s =
     (case convert_for expression s '''' of
        None \<Rightarrow> None
      | Some (s1, out1) \<Rightarrow>
          (case drain_while s1 out1 of (s2, out2) \<Rightarrow> Some (out2, s2)))"

text \<open>
  Several calls of \<^verbatim>\<open>convert\<close> in a row on the one instance, as the module makes them
  (lines 343, 356 and 369): each call starts on the stack the last one left, and a call
  that does not return keeps the later ones from running.
\<close>

fun convert_calls :: "string list \<Rightarrow> string stack \<Rightarrow> (string list \<times> string stack) option" where
  "convert_calls [] s = Some ([], s)"
| "convert_calls (e # es) s =
     (case convert e s of
        None \<Rightarrow> None
      | Some (out, s1) \<Rightarrow>
          (case convert_calls es s1 of
             None \<Rightarrow> None
           | Some (outs, s2) \<Rightarrow> Some (out # outs, s2)))"

section \<open>The balance checker (BalancedStack.ts)\<close>

text \<open>
  The class \<^verbatim>\<open>BalancedStack<T>\<close> repeats \<^verbatim>\<open>pop\<close>, \<^verbatim>\<open>peek\<close> and \<^verbatim>\<open>isEmpty\<close> word for word;
  its \<^verbatim>\<open>push\<close> (lines 55 to 59) has no capacity test.
\<close>

definition BalancedStack_push :: "'a \<Rightarrow> 'a stack \<Rightarrow> 'a stack" where
  "BalancedStack_push v s =
     (let s1 = s\<lparr>topLevel := topLevel s + 1\<rparr>;
          s2 = s1\<lparr>elements := (elements s1)(topLevel s1 \<mapsto> v)\<rparr>;
          s3 = s2\<lparr>length_field := length_field s2 + 1\<rparr>
      in s3)"

text \<open>
  \<^verbatim>\<open>isBalanced\<close> (lines 236 to 253). The function works on the module's one instance
  \<^verbatim>\<open>balancedStack\<close> (line 202): it is given the stack as the last call left it and
  returns, with its result, the stack as it leaves it.
\<close>

fun isBalanced :: "string \<Rightarrow> string stack \<Rightarrow> bool \<times> string stack" where
  "isBalanced [] balancedStack = (isEmpty balancedStack, balancedStack)"
| "isBalanced (c # cs) balancedStack =
     (if c = CHR ''('' \<or> c = CHR ''{'' \<or> c = CHR ''[''
      then isBalanced cs (BalancedStack_push [c] balancedStack)
      else if c = CHR '')'' \<or> c = CHR ''}'' \<or> c = CHR '']''
      then
        (if isEmpty balancedStack then (False, balancedStack)
         else
           (case pop balancedStack of
              (r, s1) \<Rightarrow>
                (if (c = CHR '')'' \<and> returned r \<noteq> Some ''('') \<or>
                    (c = CHR ''}'' \<and> returned r \<noteq> Some ''{'') \<or>
                    (c = CHR '']'' \<and> returned r \<noteq> Some ''['')
                 then (False, s1)
                 else isBalanced cs s1)))
      else isBalanced cs balancedStack)"

text \<open>
  The balance check as the specification words it, on a stack of bracket kinds (the top
  is the head of the list): push the kind of an opening bracket; on a closing bracket
  fail if the stack is empty or the popped kind is not the bracket's; skip every other
  character; at the end the expression is balanced iff the stack is empty.
\<close>

datatype BracketKind = Paren | Square | Curly

fun open_kind :: "char \<Rightarrow> BracketKind option" where
  "open_kind c =
     (if c = CHR ''('' then Some Paren
      else if c = CHR ''['' then Some Square
      else if c = CHR ''{'' then Some Curly
      else None)"

fun close_kind :: "char \<Rightarrow> BracketKind option" where
  "close_kind c =
     (if c = CHR '')'' then Some Paren
      else if c = CHR '']'' then Some Square
      else if c = CHR ''}'' then Some Curly
      else None)"

fun open_glyph :: "BracketKind \<Rightarrow> char" where
  "open_glyph Paren = CHR ''(''"
| "open_glyph Square = CHR ''[''"
| "open_glyph Curly = CHR ''{''"

fun spec_scan :: "string \<Rightarrow> BracketKind list \<Rightarrow> bool" where
  "spec_scan [] st = (st = [])"
| "spec_scan (c # cs) st =
     (case open_kind c of
        Some k \<Rightarrow> spec_scan cs (k # st)
      | None \<Rightarrow>
          (case close_kind c of
             Some k \<Rightarrow>
               (case st of
                  [] \<Rightarrow> False
                | k' # st' \<Rightarrow> if k' = k then spec_scan cs st' else False)
           | None \<Rightarrow> spec_scan cs st))"

definition is_balanced_spec :: "string \<Rightarrow> bool" where
  "is_balanced_spec expression = spec_scan expression []"

text \<open>
  Two stacks hold the same element sequence: the same top index, at least \<open>-1\<close>, and
  the same cells up to it. The cells above the top and the history may differ.
\<close>

definition same_elements :: "'a stack \<Rightarrow> 'a stack \<Rightarrow> bool" where
  "same_elements s t \<longleftrightarrow>
     - 1 \<le> topLevel s \<and> topLevel s = topLevel t \<and> contents s = contents t"

text \<open>Two converter stacks in mid-scan: an opening square bracket under a plus, and a plus
  under a times.\<close>

definition square_plus_stack :: "string stack" where
  "square_plus_stack = InfixToPostfixStack_push ''+'' (InfixToPostfixStack_push ''['' new_stack)"

definition plus_times_stack :: "string stack" where
  "plus_times_stack = InfixToPostfixStack_push ''*'' (InfixToPostfixStack_push ''+'' new_stack)"

text \<open>
  The converter's stack as a call of \<^verbatim>\<open>convert\<close> on \<^verbatim>\<open>A+B\<close> leaves it: empty, with the
  popped \<^verbatim>\<open>+\<close> in cell \<open>0\<close> and in the history.
\<close>

definition drained_stack :: "string stack" where
  "drained_stack = snd (pop (InfixToPostfixStack_push ''+'' new_stack))"


section \<open>The invariant\<close>

lemma stack_inv_new: "stack_inv new_stack"
  by (simp add: stack_inv_def new_stack_def MAX_SIZE_def)

lemma upto_snoc: "- 1 \<le> (n::int) \<Longrightarrow> [0..n + 1] = [0..n] @ [n + 1]"
  by (simp add: upto_rec2)

lemma upto_pred_snoc: "0 \<le> (n::int) \<Longrightarrow> [0..n] = [0..n - 1] @ [n]"
  using upto_rec2 [of 0 n] by simp

lemma stack_inv_push: "stack_inv s \<Longrightarrow> stack_inv (snd (push v s))"
  by (auto simp: stack_inv_def push_def Let_def upto_snoc list_all_iff)

lemma stack_inv_pop: "stack_inv s \<Longrightarrow> stack_inv (snd (pop s))"
  by (auto simp: stack_inv_def pop_def Let_def upto_pred_snoc list_all_iff)

lemma stack_inv_array_pop:
  "stack_inv s \<Longrightarrow> stack_inv (s\<lparr>poppedHistory := snd (array_pop (poppedHistory s))\<rparr>)"
  by (auto simp: stack_inv_def array_pop_def list_all_iff dest: in_set_butlastD)

lemma stack_inv_undo:
  assumes "stack_inv s"
  shows "stack_inv (snd (undo s))"
proof -
  let ?s1 = "s\<lparr>poppedHistory := snd (array_pop (poppedHistory s))\<rparr>"
  have s1: "stack_inv ?s1"
    using assms by (rule stack_inv_array_pop)
  show ?thesis
  proof (cases "fst (array_pop (poppedHistory s))")
    case None
    then show ?thesis
      using s1 by (simp add: undo_def split_beta)
  next
    case (Some v)
    then show ?thesis
      using stack_inv_push [OF s1, of v] by (simp add: undo_def split_beta)
  qed
qed


section \<open>Failed operations\<close>

text \<open>
  C7. A failed operation changes nothing. In every state of the class, \<^verbatim>\<open>pop\<close> with
  a count of zero takes the underflow branch and returns the state as it was (cells,
  top index, count and history), and \<^verbatim>\<open>push\<close> with a count equal to the capacity
  \<^verbatim>\<open>MAX_SIZE\<close> takes the overflow branch and returns the state as it was.
\<close>

theorem failed_operations_atomic:
  "stack_inv s \<Longrightarrow>
     (length_field s = 0 \<longrightarrow> pop s = (Inl Underflow, s)) \<and>
     (length_field s = MAX_SIZE \<longrightarrow> push v s = (Inl Overflow, s))"
  by (auto simp: stack_inv_def pop_def push_def)

lemma full_stack_inv: "stack_inv full_stack"
  by (simp add: full_stack_def stack_inv_push stack_inv_new)

lemma full_stack_length: "length_field full_stack = 9"
  by (simp add: full_stack_def push_def new_stack_def MAX_SIZE_def)

theorem failed_operations_atomic_witness:
  "stack_inv (new_stack :: int stack) \<and> length_field (new_stack :: int stack) = 0 \<and>
   pop (new_stack :: int stack) = (Inl Underflow, new_stack) \<and>
   stack_inv full_stack \<and> length_field full_stack = MAX_SIZE \<and>
   push 10 full_stack = (Inl Overflow, full_stack)"
proof -
  have e: "length_field (new_stack :: int stack) = 0"
    by (simp add: new_stack_def)
  have f: "length_field full_stack = MAX_SIZE"
    by (simp add: full_stack_length MAX_SIZE_def)
  show ?thesis
    using failed_operations_atomic [OF stack_inv_new, of 0] e
      failed_operations_atomic [OF full_stack_inv, of 10] f
      stack_inv_new [where ?'a = int] full_stack_inv
    by blast
qed


section \<open>The element sequence\<close>

lemma length_contents: "length (contents s) = nat (topLevel s + 1)"
  by (simp add: contents_def)

lemma contents_push:
  "- 1 \<le> topLevel s \<Longrightarrow> topLevel s < MAX_SIZE - 1 \<Longrightarrow>
   contents (snd (push v s)) = contents s @ [Some v]"
  by (simp add: contents_def push_def Let_def upto_snoc)

lemma contents_pop:
  "0 \<le> topLevel s \<Longrightarrow>
   contents s = contents (snd (pop s)) @ [returned (fst (pop s))]"
  by (simp add: contents_def pop_def Let_def upto_pred_snoc)

lemma pushes_contents:
  "stack_inv s \<Longrightarrow> length_field s + int (length vs) \<le> MAX_SIZE \<Longrightarrow>
   stack_inv (pushes vs s) \<and> contents (pushes vs s) = contents s @ map Some vs"
proof (induction vs arbitrary: s)
  case Nil
  then show ?case by simp
next
  case (Cons v vs)
  have inv': "stack_inv (snd (push v s))"
    using Cons.prems(1) by (rule stack_inv_push)
  have below: "topLevel s < MAX_SIZE - 1" and low: "- 1 \<le> topLevel s"
    using Cons.prems by (auto simp: stack_inv_def)
  have len': "length_field (snd (push v s)) = length_field s + 1"
    using below by (simp add: push_def Let_def)
  have "stack_inv (pushes vs (snd (push v s))) \<and>
        contents (pushes vs (snd (push v s))) = contents (snd (push v s)) @ map Some vs"
    using Cons.prems(2) len' by (intro Cons.IH [OF inv']) simp
  then show ?case
    by (simp add: contents_push [OF low below])
qed

lemma pops_contents:
  "contents s = xs @ rev ys \<Longrightarrow>
   fst (pops (length ys) s) = ys \<and> contents (snd (pops (length ys) s)) = xs"
proof (induction ys arbitrary: s)
  case Nil
  then show ?case by simp
next
  case (Cons y ys)
  have "length (contents s) > 0"
    using Cons.prems by simp
  then have top: "0 \<le> topLevel s"
    by (simp add: length_contents)
  have "contents (snd (pop s)) @ [returned (fst (pop s))] = (xs @ rev ys) @ [y]"
    using contents_pop [OF top] Cons.prems by simp
  then have c: "contents (snd (pop s)) = xs @ rev ys" and r: "returned (fst (pop s)) = y"
    by simp_all
  show ?case
    using Cons.IH [OF c] r by (simp add: split_beta)
qed


section \<open>Last in, first out\<close>

text \<open>
  C8. The LIFO law. Pushing any sequence of values that fits the capacity onto a new
  stack and then popping as many times returns exactly those values, the last pushed
  first.
\<close>

theorem lifo_law:
  "int (length vs) \<le> MAX_SIZE \<Longrightarrow>
   fst (pops (length vs) (pushes vs new_stack)) = map Some (rev vs)"
proof -
  assume "int (length vs) \<le> MAX_SIZE"
  then have "contents (pushes vs (new_stack :: 'a stack)) = contents (new_stack :: 'a stack) @ map Some vs"
    using pushes_contents [OF stack_inv_new, of vs] by (simp add: new_stack_def)
  then have "contents (pushes vs (new_stack :: 'a stack)) = [] @ rev (map Some (rev vs))"
    by (simp add: contents_def new_stack_def rev_map)
  from pops_contents [OF this] show ?thesis by simp
qed

theorem lifo_law_witness:
  "int (length [10, 20, 30 :: int]) \<le> MAX_SIZE \<and>
   fst (pops (length [10, 20, 30 :: int]) (pushes [10, 20, 30 :: int] new_stack)) =
     [Some 30, Some 20, Some 10]"
proof -
  have h: "int (length [10, 20, 30 :: int]) \<le> MAX_SIZE"
    by (simp add: MAX_SIZE_def)
  have r: "map Some (rev [10, 20, 30 :: int]) = [Some 30, Some 20, Some 10]"
    by simp
  show ?thesis
    using h lifo_law [OF h] unfolding r by blast
qed

section \<open>Undo\<close>

lemma popped_stack_inv: "stack_inv popped_stack"
  by (simp add: popped_stack_def stack_inv_pop full_stack_inv)

lemma refilled_stack_inv: "stack_inv refilled_stack"
  by (simp add: refilled_stack_def stack_inv_push popped_stack_inv)

lemma refilled_stack_eq:
  "refilled_stack =
     \<lparr>elements = [0 \<mapsto> 1, 1 \<mapsto> 2, 2 \<mapsto> 3, 3 \<mapsto> 4, 4 \<mapsto> 5, 5 \<mapsto> 6, 6 \<mapsto> 7, 7 \<mapsto> 8, 8 \<mapsto> 10],
      topLevel = 8, length_field = 9, poppedHistory = [Some 9]\<rparr>"
  by (simp add: refilled_stack_def popped_stack_def full_stack_def push_def pop_def
      new_stack_def MAX_SIZE_def Let_def)

text \<open>
  C1. The code on a full stack with a non-empty history, reached by nine pushes, a
  \<^verbatim>\<open>pop\<close> and a \<^verbatim>\<open>push\<close>. \<^verbatim>\<open>undo\<close> takes the popped \<open>9\<close> out of the history, its inner
  \<^verbatim>\<open>push\<close> refuses the value at the capacity test, and \<^verbatim>\<open>undo\<close> still returns \<open>9\<close>: the
  element sequence is what it was, the top is still \<open>10\<close>, the count is still nine,
  and the value is in neither the stack nor the history. The documentation of \<^verbatim>\<open>undo\<close>
  promises the element that was restored, or \<^verbatim>\<open>undefined\<close> when none could be.
\<close>

theorem undo_at_capacity_loses_value:
  "stack_inv refilled_stack \<and> poppedHistory refilled_stack = [Some 9] \<and>
   length_field refilled_stack = MAX_SIZE \<and>
   fst (undo refilled_stack) = Some 9 \<and>
   poppedHistory (snd (undo refilled_stack)) = [] \<and>
   contents (snd (undo refilled_stack)) = contents refilled_stack \<and>
   peek (snd (undo refilled_stack)) = Inr (Some 10) \<and>
   length_field (snd (undo refilled_stack)) = MAX_SIZE"
  using refilled_stack_inv
  by (simp add: refilled_stack_eq undo_def array_pop_def push_def peek_def contents_def
      MAX_SIZE_def Let_def)

text \<open>
  Below the capacity \<^verbatim>\<open>undo\<close> does what its documentation says: with a non-empty
  history it removes the most recent entry, pushes that value onto the stack, where it
  is the new top, and returns it.
\<close>

lemma undo_restores_below_capacity:
  assumes "stack_inv s" and "poppedHistory s \<noteq> []" and "length_field s < MAX_SIZE"
  shows "\<exists>v. last (poppedHistory s) = Some v \<and> fst (undo s) = Some v \<and>
           poppedHistory (snd (undo s)) = butlast (poppedHistory s) \<and>
           contents (snd (undo s)) = contents s @ [Some v] \<and>
           peek (snd (undo s)) = Inr (Some v) \<and>
           length_field (snd (undo s)) = length_field s + 1"
proof -
  have "last (poppedHistory s) \<in> set (poppedHistory s)"
    using assms(2) by simp
  then obtain v where v: "last (poppedHistory s) = Some v"
    using assms(1) by (auto simp: stack_inv_def list_all_iff)
  let ?s1 = "s\<lparr>poppedHistory := butlast (poppedHistory s)\<rparr>"
  have u: "undo s = (Some v, snd (push v ?s1))"
    using assms(2) v by (simp add: undo_def array_pop_def)
  have low: "- 1 \<le> topLevel ?s1" and below: "topLevel ?s1 < MAX_SIZE - 1"
    using assms(1,3) by (auto simp: stack_inv_def)
  have c: "contents (snd (push v ?s1)) = contents ?s1 @ [Some v]"
    using low below by (rule contents_push)
  have c1: "contents ?s1 = contents s"
    by (simp add: contents_def)
  have p: "peek (snd (push v ?s1)) = Inr (Some v)"
    using low below by (simp add: peek_def push_def Let_def)
  have h: "poppedHistory (snd (push v ?s1)) = butlast (poppedHistory s)"
    by (simp add: push_def Let_def)
  have l: "length_field (snd (push v ?s1)) = length_field s + 1"
    using below by (simp add: push_def Let_def)
  show ?thesis
    using v u c c1 p h l by simp
qed

lemma undo_restores_below_capacity_example:
  "stack_inv popped_stack \<and> poppedHistory popped_stack \<noteq> [] \<and>
   length_field popped_stack < MAX_SIZE \<and>
   (\<exists>v. last (poppedHistory popped_stack) = Some v \<and> fst (undo popped_stack) = Some v \<and>
           poppedHistory (snd (undo popped_stack)) = butlast (poppedHistory popped_stack) \<and>
           contents (snd (undo popped_stack)) = contents popped_stack @ [Some v] \<and>
           peek (snd (undo popped_stack)) = Inr (Some v) \<and>
           length_field (snd (undo popped_stack)) = length_field popped_stack + 1)"
proof -
  have h: "poppedHistory popped_stack \<noteq> []"
    by (simp add: popped_stack_def full_stack_def push_def pop_def new_stack_def MAX_SIZE_def
        Let_def)
  have l: "length_field popped_stack < MAX_SIZE"
    by (simp add: popped_stack_def full_stack_def push_def pop_def new_stack_def MAX_SIZE_def
        Let_def)
  show ?thesis
    using popped_stack_inv h l undo_restores_below_capacity [OF popped_stack_inv h l]
    by blast
qed

lemma undo_pop:
  assumes "stack_inv s" and "0 \<le> topLevel s"
  shows "undo (snd (pop s)) = (returned (fst (pop s)), s)"
proof -
  have "elements s (topLevel s) \<noteq> None"
    using assms by (simp add: stack_inv_def list_all_iff)
  then obtain v where v: "elements s (topLevel s) = Some v"
    by auto
  have below: "\<not> MAX_SIZE - 1 \<le> topLevel s - 1"
    using assms(1) by (simp add: stack_inv_def)
  have "(elements s)(topLevel s \<mapsto> v) = elements s"
    using v by (simp add: fun_upd_idem)
  then show ?thesis
    using assms(2) v below
    by (simp add: undo_def pop_def push_def array_pop_def Let_def)
qed

lemma undos_snoc:
  "undos (Suc n) s =
     (let (us, s1) = undos n s; (u, s2) = undo s1 in (us @ [u], s2))"
  by (induction n arbitrary: s) (simp_all add: split_beta Let_def)

lemma pops_undos:
  "stack_inv s \<Longrightarrow> int n \<le> length_field s \<Longrightarrow>
   undos n (snd (pops n s)) = (rev (fst (pops n s)), s) \<and>
   fst (pops n s) = take n (rev (contents s))"
proof (induction n arbitrary: s)
  case 0
  then show ?case by simp
next
  case (Suc n)
  have top: "0 \<le> topLevel s"
    using Suc.prems by (simp add: stack_inv_def)
  let ?s1 = "snd (pop s)"
  have inv1: "stack_inv ?s1"
    using Suc.prems(1) by (rule stack_inv_pop)
  have len1: "int n \<le> length_field ?s1"
    using Suc.prems(2) top by (simp add: pop_def Let_def)
  note IH = Suc.IH [OF inv1 len1]
  have c: "rev (contents s) = returned (fst (pop s)) # rev (contents ?s1)"
    using contents_pop [OF top, THEN arg_cong, of rev] by simp
  show ?case
    using IH undo_pop [OF Suc.prems(1) top] c
    by (simp add: undos_snoc split_beta Let_def del: undos.simps)
qed

text \<open>
  C9. Multi-level undo. On a stack of at least two elements, \<^verbatim>\<open>pop, pop, undo, undo\<close>
  restores the second popped value first and the first popped value second, and the
  state afterwards is the state before (cells, top index, count and history). In
  general \<open>n\<close> pops return the top \<open>n\<close> elements from the top down, and \<open>n\<close>
  calls of \<^verbatim>\<open>undo\<close> after them return the same values in the opposite order and
  restore the state.
\<close>

theorem multi_level_undo:
  assumes "stack_inv s"
  shows "(2 \<le> length_field s \<longrightarrow>
            fst (undo (snd (pop (snd (pop s))))) = returned (fst (pop (snd (pop s)))) \<and>
            fst (undo (snd (undo (snd (pop (snd (pop s))))))) = returned (fst (pop s)) \<and>
            returned (fst (pop (snd (pop s)))) \<noteq> None \<and> returned (fst (pop s)) \<noteq> None \<and>
            snd (undo (snd (undo (snd (pop (snd (pop s))))))) = s) \<and>
         (\<forall>n. int n \<le> length_field s \<longrightarrow>
            fst (pops n s) = take n (rev (contents s)) \<and>
            fst (undos n (snd (pops n s))) = rev (fst (pops n s)) \<and>
            snd (undos n (snd (pops n s))) = s)"
proof (intro conjI impI allI)
  fix n assume "int n \<le> length_field s"
  from pops_undos [OF assms this]
  show "fst (pops n s) = take n (rev (contents s))"
    and "fst (undos n (snd (pops n s))) = rev (fst (pops n s))"
    and "snd (undos n (snd (pops n s))) = s"
    by simp_all
next
  assume two: "2 \<le> length_field s"
  have top: "0 \<le> topLevel s" and top1: "0 \<le> topLevel (snd (pop s))"
    using assms two by (auto simp: stack_inv_def pop_def Let_def)
  have inv1: "stack_inv (snd (pop s))"
    using assms by (rule stack_inv_pop)
  note u1 = undo_pop [OF inv1 top1] and u2 = undo_pop [OF assms top]
  show "fst (undo (snd (pop (snd (pop s))))) = returned (fst (pop (snd (pop s))))"
    by (simp add: u1)
  show "fst (undo (snd (undo (snd (pop (snd (pop s))))))) = returned (fst (pop s))"
    by (simp add: u1 u2)
  show "snd (undo (snd (undo (snd (pop (snd (pop s))))))) = s"
    by (simp add: u1 u2)
  show "returned (fst (pop s)) \<noteq> None"
    using assms top by (simp add: stack_inv_def pop_def Let_def list_all_iff)
  show "returned (fst (pop (snd (pop s)))) \<noteq> None"
    using inv1 top1 by (simp add: stack_inv_def pop_def [of "snd (pop s)"] Let_def list_all_iff)
qed

theorem multi_level_undo_witness:
  "stack_inv full_stack \<and> 2 \<le> length_field full_stack \<and>
   fst (undo (snd (pop (snd (pop full_stack))))) = Some 8 \<and>
   fst (undo (snd (undo (snd (pop (snd (pop full_stack))))))) = Some 9 \<and>
   snd (undo (snd (undo (snd (pop (snd (pop full_stack))))))) = full_stack \<and>
   int (Suc (Suc (Suc 0))) \<le> length_field full_stack \<and>
   fst (pops (Suc (Suc (Suc 0))) full_stack) = [Some 9, Some 8, Some 7] \<and>
   fst (undos (Suc (Suc (Suc 0))) (snd (pops (Suc (Suc (Suc 0))) full_stack))) =
     [Some 7, Some 8, Some 9] \<and>
   snd (undos (Suc (Suc (Suc 0))) (snd (pops (Suc (Suc (Suc 0))) full_stack))) = full_stack"
proof -
  have two: "2 \<le> length_field full_stack" and three: "int (Suc (Suc (Suc 0))) \<le> length_field full_stack"
    by (simp_all add: full_stack_length)
  have p1: "returned (fst (pop full_stack)) = Some 9"
    and p2: "returned (fst (pop (snd (pop full_stack)))) = Some 8"
    by (simp_all add: full_stack_def push_def pop_def new_stack_def MAX_SIZE_def Let_def)
  have c: "take (Suc (Suc (Suc 0))) (rev (contents full_stack)) = [Some 9, Some 8, Some 7]"
    by (simp add: contents_def full_stack_def push_def new_stack_def MAX_SIZE_def Let_def
        upto.simps)
  note m = multi_level_undo [OF full_stack_inv]
  have a: "fst (undo (snd (pop (snd (pop full_stack))))) = Some 8"
    and b: "fst (undo (snd (undo (snd (pop (snd (pop full_stack))))))) = Some 9"
    and d: "snd (undo (snd (undo (snd (pop (snd (pop full_stack))))))) = full_stack"
    using m two p1 p2 by simp_all
  have e: "fst (pops (Suc (Suc (Suc 0))) full_stack) = [Some 9, Some 8, Some 7]"
    using m three c by metis
  have f: "fst (undos (Suc (Suc (Suc 0))) (snd (pops (Suc (Suc (Suc 0))) full_stack))) =
             rev (fst (pops (Suc (Suc (Suc 0))) full_stack))"
    and g: "snd (undos (Suc (Suc (Suc 0))) (snd (pops (Suc (Suc (Suc 0))) full_stack))) =
             full_stack"
    using m three by blast+
  show ?thesis
    using full_stack_inv two three a b d e f [unfolded e] g by simp
qed

section \<open>The converter's loops\<close>

lemma peek_pop: "returned (peek s) = returned (fst (pop s))"
  by (simp add: peek_def pop_def Let_def)

lemma contents_Nil_iff: "contents s = [] \<longleftrightarrow> isEmpty s"
  by (simp add: contents_def isEmpty_def)

lemma contents_snoc_top:
  assumes "contents s = cs @ [x]"
  shows "\<not> isEmpty s" and "returned (peek s) = x" and "returned (fst (pop s)) = x"
    and "contents (snd (pop s)) = cs"
proof -
  have "length (contents s) > 0"
    using assms by simp
  then have top: "0 \<le> topLevel s"
    by (simp add: length_contents)
  then show "\<not> isEmpty s"
    by (simp add: isEmpty_def)
  have "contents (snd (pop s)) @ [returned (fst (pop s))] = cs @ [x]"
    using contents_pop [OF top] assms by simp
  then show "returned (fst (pop s)) = x" and "contents (snd (pop s)) = cs"
    by simp_all
  then show "returned (peek s) = x"
    by (simp add: peek_pop)
qed

lemma topLevel_pop: "topLevel (snd (pop s)) = (if topLevel s < 0 then topLevel s else topLevel s - 1)"
  by (simp add: pop_def Let_def)

lemma topLevel_pop_ge: "- 1 \<le> topLevel s \<Longrightarrow> - 1 \<le> topLevel (snd (pop s))"
  by (simp add: topLevel_pop)

lemma topLevel_InfixToPostfixStack_push:
  "topLevel (InfixToPostfixStack_push v s) = topLevel s + 1"
  by (simp add: InfixToPostfixStack_push_def Let_def)

lemma contents_InfixToPostfixStack_push:
  "- 1 \<le> topLevel s \<Longrightarrow> contents (InfixToPostfixStack_push v s) = contents s @ [Some v]"
  by (simp add: contents_def InfixToPostfixStack_push_def Let_def upto_snoc)

lemma square_plus_stack_contents: "contents square_plus_stack = [Some ''['', Some ''+'']"
  by (simp add: square_plus_stack_def contents_def InfixToPostfixStack_push_def new_stack_def
      Let_def upto.simps)

lemma plus_times_stack_contents: "contents plus_times_stack = [Some ''+'', Some ''*'']"
  by (simp add: plus_times_stack_def contents_def InfixToPostfixStack_push_def new_stack_def
      Let_def upto.simps)

lemma plus_times_stack_top: "topLevel plus_times_stack = 1"
  by (simp add: plus_times_stack_def InfixToPostfixStack_push_def new_stack_def Let_def)

subsection \<open>The closing-bracket loop\<close>

text \<open>
  The loop does not return on an empty stack: \<^verbatim>\<open>peek\<close> yields \<^verbatim>\<open>undefined\<close>, which is no
  opening bracket, \<^verbatim>\<open>pop\<close> changes nothing, and the next round finds the same stack.
\<close>

lemma close_while_returns_nonempty:
  "close_while s out = Some r \<Longrightarrow> \<not> isEmpty s"
proof (rule close_while.raw_induct [where P = "\<lambda>s out r. \<not> isEmpty s"])
  show "close_while s out = Some r \<Longrightarrow> close_while s out = Some r" .
next
  fix f :: "string stack \<Rightarrow> string \<Rightarrow> (string stack \<times> string) option" and s out r
  assume IH: "\<And>s out r. f s out = Some r \<Longrightarrow> \<not> isEmpty s"
    and step: "(if returned (peek s) \<noteq> Some ''('' \<and> returned (peek s) \<noteq> Some ''{'' \<and>
         returned (peek s) \<noteq> Some ''[''
      then f (snd (pop s)) (out @ js_to_string (returned (fst (pop s))))
      else Some (s, out)) = Some r"
  show "\<not> isEmpty s"
  proof
    assume e: "isEmpty s"
    then have "f s (out @ ''undefined'') = Some r"
      using step by (simp add: isEmpty_def peek_def pop_def)
    then show False
      using IH e by blast
  qed
qed

lemma close_while_empty: "isEmpty s \<Longrightarrow> close_while s out = None"
  using close_while_returns_nonempty [of s out] by (cases "close_while s out") auto

lemma close_while_no_opener:
  "contents s = map Some (rev ys) \<Longrightarrow> \<forall>y\<in>set ys. y \<noteq> ''('' \<and> y \<noteq> ''{'' \<and> y \<noteq> ''['' \<Longrightarrow>
   close_while s out = None"
proof (induction ys arbitrary: s out)
  case Nil
  then show ?case
    by (simp add: close_while_empty contents_Nil_iff)
next
  case (Cons y ys)
  have c: "contents s = map Some (rev ys) @ [Some y]"
    using Cons.prems(1) by simp
  note t = contents_snoc_top [OF c]
  have "close_while s out = close_while (snd (pop s)) (out @ y)"
    using Cons.prems(2) t by (subst close_while.simps) simp
  also have "\<dots> = None"
    using Cons.prems(2) t(4) by (intro Cons.IH) simp_all
  finally show ?case .
qed

lemma close_while_opener:
  assumes "b = ''('' \<or> b = ''{'' \<or> b = ''[''"
  shows "contents s = map Some (xs @ [b] @ rev ys) \<Longrightarrow>
   \<forall>y\<in>set ys. y \<noteq> ''('' \<and> y \<noteq> ''{'' \<and> y \<noteq> ''['' \<Longrightarrow>
   \<exists>s1. close_while s out = Some (s1, out @ concat ys) \<and> contents s1 = map Some (xs @ [b]) \<and>
        topLevel s1 = topLevel s - int (length ys)"
proof (induction ys arbitrary: s out)
  case Nil
  have c: "contents s = map Some xs @ [Some b]"
    using Nil.prems(1) by simp
  note t = contents_snoc_top [OF c]
  have "close_while s out = Some (s, out)"
    using assms t by (subst close_while.simps) auto
  then show ?case
    using Nil.prems(1) by simp
next
  case (Cons y ys)
  have c: "contents s = map Some (xs @ [b] @ rev ys) @ [Some y]"
    using Cons.prems(1) by simp
  note t = contents_snoc_top [OF c]
  have step: "close_while s out = close_while (snd (pop s)) (out @ y)"
    using Cons.prems(2) t by (subst close_while.simps) simp
  obtain s1 where s1: "close_while (snd (pop s)) (out @ y) = Some (s1, (out @ y) @ concat ys)"
      "contents s1 = map Some (xs @ [b])"
      "topLevel s1 = topLevel (snd (pop s)) - int (length ys)"
    using Cons.IH [OF t(4), of "out @ y"] Cons.prems(2) by auto
  have "topLevel (snd (pop s)) = topLevel s - 1"
    using t(1) by (simp add: topLevel_pop isEmpty_def)
  then show ?case
    using step s1 by simp
qed

subsection \<open>The operator loop\<close>

lemma or_empty_Some: "or_empty (Some t) = t"
  by simp

lemma operator_while_contents:
  "contents s = map Some (rev ys) \<Longrightarrow>
   \<exists>s1. operator_while ch s out =
          (s1, out @ concat (takeWhile (\<lambda>t. precedence ch \<le> precedence t) ys)) \<and>
        contents s1 = map Some (rev (dropWhile (\<lambda>t. precedence ch \<le> precedence t) ys)) \<and>
        topLevel s1 = topLevel s - int (length (takeWhile (\<lambda>t. precedence ch \<le> precedence t) ys))"
proof (induction ys arbitrary: s out)
  case Nil
  then have "isEmpty s"
    by (simp add: contents_Nil_iff)
  then have "operator_while ch s out = (s, out)"
    by (subst operator_while.simps) simp
  then show ?case
    using Nil by simp
next
  case (Cons y ys)
  have c: "contents s = map Some (rev ys) @ [Some y]"
    using Cons.prems(1) by simp
  note t = contents_snoc_top [OF c]
  show ?case
  proof (cases "precedence ch \<le> precedence y")
    case True
    have step: "operator_while ch s out = operator_while ch (snd (pop s)) (out @ y)"
      using True t by (subst operator_while.simps) (simp del: or_empty.simps add: or_empty_Some)
    have "topLevel (snd (pop s)) = topLevel s - 1"
      using t(1) by (simp add: topLevel_pop isEmpty_def)
    then show ?thesis
      using Cons.IH [OF t(4), of "out @ y"] step True by auto
  next
    case False
    have "operator_while ch s out = (s, out)"
      using False t by (subst operator_while.simps) (simp del: or_empty.simps add: or_empty_Some)
    then show ?thesis
      using False Cons.prems by simp
  qed
qed

section \<open>The converter\<close>

text \<open>
  A closing bracket scanned while the stack holds no opening bracket: the loop takes
  every element off and then runs on the empty stack, so the scan does not return.
\<close>

lemma convert_for_unmatched_close:
  assumes "c = CHR '')'' \<or> c = CHR ''}'' \<or> c = CHR '']''"
    and "contents s = map Some ys"
    and "\<forall>y\<in>set ys. y \<noteq> ''('' \<and> y \<noteq> ''{'' \<and> y \<noteq> ''[''"
  shows "convert_for (c # cs) s out = None"
proof -
  have "close_while s out = None"
    using assms(2,3) close_while_no_opener [of s "rev ys" out] by simp
  then show ?thesis
    using assms(1) by auto
qed

text \<open>
  C2. The code at the input \<^verbatim>\<open>)\<close>: on a new stack the closing-bracket loop never ends,
  so \<^verbatim>\<open>convert\<close> does not return, neither a string nor an error.
\<close>

theorem convert_unmatched_close_never_returns:
  "convert '')'' new_stack = None"
  by (simp add: convert_def close_while_empty isEmpty_def new_stack_def)

text \<open>
  C6, as stated, fails in its third equality: the string the claim gives is not what
  \<^verbatim>\<open>convert\<close> returns for \<^verbatim>\<open>A+((B*C)-(D/E))/F\<close> on a new stack.
\<close>

theorem convert_third_reference_counterexample:
  "map_option fst (convert ''A+((B*C)-(D/E))/F'' new_stack) \<noteq> Some ''ABC*DE/-+F/''"
  by code_simp

text \<open>
  C6, amended. On a new stack \<^verbatim>\<open>convert\<close> returns \<^verbatim>\<open>ABC*+\<close> for \<^verbatim>\<open>A+B*C\<close>,
  \<^verbatim>\<open>ABC+*D/\<close> for \<^verbatim>\<open>A*(B+C)/D\<close>, and \<^verbatim>\<open>ABC*DE/-F/+\<close> for \<^verbatim>\<open>A+((B*C)-(D/E))/F\<close>: the
  division by \<^verbatim>\<open>F\<close> binds tighter than the leading addition, whose operator is emitted
  last.
\<close>

theorem convert_reference_examples:
  "map_option fst (convert ''A+B*C'' new_stack) = Some ''ABC*+'' \<and>
   map_option fst (convert ''A*(B+C)/D'' new_stack) = Some ''ABC+*D/'' \<and>
   map_option fst (convert ''A+((B*C)-(D/E))/F'' new_stack) = Some ''ABC*DE/-F/+''"
  by code_simp

lemma convert_mismatched_pair:
  "map_option fst (convert ''[A+B)'' new_stack) = Some ''AB+''"
  by code_simp

text \<open>
  C10. A closing bracket is matched against any opening bracket. When the stack holds
  an opening bracket \<open>b\<close> of any of the three kinds with only non-brackets \<open>ys\<close> above
  it, scanning a closing bracket \<open>c\<close> of any kind appends \<open>ys\<close>, top first, to the
  output and takes \<open>b\<close> off the stack; \<open>b\<close> and \<open>c\<close> are never compared. So \<^verbatim>\<open>[A+B)\<close> is
  converted to \<^verbatim>\<open>AB+\<close>.
\<close>

theorem close_matches_any_opener:
  assumes "c = CHR '')'' \<or> c = CHR ''}'' \<or> c = CHR '']''"
    and "b = ''('' \<or> b = ''{'' \<or> b = ''[''"
    and "contents s = map Some (xs @ [b] @ ys)"
    and "\<forall>y\<in>set ys. y \<noteq> ''('' \<and> y \<noteq> ''{'' \<and> y \<noteq> ''[''"
  shows "(\<exists>s1. close_while s out = Some (s1, out @ concat (rev ys)) \<and>
               contents s1 = map Some (xs @ [b]) \<and>
               convert_for (c # cs) s out = convert_for cs (snd (pop s1)) (out @ concat (rev ys)) \<and>
               contents (snd (pop s1)) = map Some xs) \<and>
         map_option fst (convert ''[A+B)'' new_stack) = Some ''AB+''"
proof -
  have c: "contents s = map Some (xs @ [b] @ rev (rev ys))"
    using assms(3) by simp
  have n: "\<forall>y\<in>set (rev ys). y \<noteq> ''('' \<and> y \<noteq> ''{'' \<and> y \<noteq> ''[''"
    using assms(4) by simp
  obtain s1 where s1: "close_while s out = Some (s1, out @ concat (rev ys))"
      "contents s1 = map Some (xs @ [b])"
    using close_while_opener [OF assms(2) c n, of out] by auto
  have "contents s1 = map Some xs @ [Some b]"
    using s1(2) by simp
  then have p: "contents (snd (pop s1)) = map Some xs"
    by (rule contents_snoc_top(4))
  have "convert_for (c # cs) s out = convert_for cs (snd (pop s1)) (out @ concat (rev ys))"
    using assms(1) s1(1) by auto
  then show ?thesis
    using s1 p convert_mismatched_pair by blast
qed

theorem close_matches_any_opener_witness:
  "contents square_plus_stack = map Some ([] @ [''[''] @ [''+'']) \<and>
   (\<exists>s1. close_while square_plus_stack ''AB'' = Some (s1, ''AB+'') \<and>
         contents s1 = [Some ''[''] \<and>
         convert_for '')'' square_plus_stack ''AB'' = convert_for [] (snd (pop s1)) ''AB+'' \<and>
         contents (snd (pop s1)) = [])"
proof -
  have h3: "contents square_plus_stack = map Some ([] @ [''[''] @ [''+''])"
    by (simp add: square_plus_stack_contents)
  have h4: "\<forall>y\<in>set [''+'']. y \<noteq> ''('' \<and> y \<noteq> ''{'' \<and> y \<noteq> ''[''"
    by simp
  have "\<exists>s1. close_while square_plus_stack ''AB'' = Some (s1, ''AB'' @ concat (rev [''+''])) \<and>
               contents s1 = map Some ([] @ [''['']) \<and>
               convert_for (CHR '')'' # []) square_plus_stack ''AB'' =
                 convert_for [] (snd (pop s1)) (''AB'' @ concat (rev [''+''])) \<and>
               contents (snd (pop s1)) = map Some []"
    using close_matches_any_opener [of "CHR '')''" "''[''" square_plus_stack "[]" "[''+'']"
        "''AB''" "[]", OF _ _ h3 h4]
    by blast
  then show ?thesis
    using h3 by simp
qed

lemma convert_equal_precedence:
  "map_option fst (convert ''A+B-C'' new_stack) = Some ''AB+C-'' \<and>
   map_option fst (convert ''A-B+C'' new_stack) = Some ''AB-C+'' \<and>
   map_option fst (convert ''A*B/C'' new_stack) = Some ''AB*C/'' \<and>
   map_option fst (convert ''A/B*C'' new_stack) = Some ''AB/C*''"
  by code_simp

text \<open>
  C5. Scanning an operator \<open>c\<close> on a stack holding the strings \<open>xs\<close> (bottom to top):
  the loop pops and appends to the output exactly the longest run of elements from the
  top down whose precedence is at least that of \<open>c\<close>, and then \<open>c\<close> is pushed onto
  what is left. The precedence is 2 for \<^verbatim>\<open>*\<close> and \<^verbatim>\<open>/\<close>, 1 for \<^verbatim>\<open>+\<close> and \<^verbatim>\<open>-\<close> and 0 for
  every other string, the operators are exactly these four, and operators of equal
  precedence come out in the order they were read.
\<close>

theorem operator_scan:
  assumes "isOperator [c]" and "- 1 \<le> topLevel s" and "contents s = map Some xs"
  shows "(\<exists>s1. operator_while [c] s out =
                 (s1, out @ concat (takeWhile (\<lambda>t. precedence [c] \<le> precedence t) (rev xs))) \<and>
               contents s1 =
                 map Some (rev (dropWhile (\<lambda>t. precedence [c] \<le> precedence t) (rev xs))) \<and>
               convert_for (c # cs) s out =
                 convert_for cs (InfixToPostfixStack_push [c] s1)
                   (out @ concat (takeWhile (\<lambda>t. precedence [c] \<le> precedence t) (rev xs))) \<and>
               contents (InfixToPostfixStack_push [c] s1) =
                 map Some (rev (dropWhile (\<lambda>t. precedence [c] \<le> precedence t) (rev xs)) @ [[c]])) \<and>
         precedence ch =
           (if ch = ''*'' \<or> ch = ''/'' then 2 else if ch = ''+'' \<or> ch = ''-'' then 1 else 0) \<and>
         isOperator ch = (ch = ''+'' \<or> ch = ''-'' \<or> ch = ''*'' \<or> ch = ''/'') \<and>
         isOperator ch = (0 < precedence ch) \<and>
         map_option fst (convert ''A+B-C'' new_stack) = Some ''AB+C-'' \<and>
         map_option fst (convert ''A-B+C'' new_stack) = Some ''AB-C+'' \<and>
         map_option fst (convert ''A*B/C'' new_stack) = Some ''AB*C/'' \<and>
         map_option fst (convert ''A/B*C'' new_stack) = Some ''AB/C*''"
proof -
  let ?P = "\<lambda>t. precedence [c] \<le> precedence t"
  have c: "contents s = map Some (rev (rev xs))"
    using assms(3) by simp
  obtain s1 where s1: "operator_while [c] s out = (s1, out @ concat (takeWhile ?P (rev xs)))"
      "contents s1 = map Some (rev (dropWhile ?P (rev xs)))"
      "topLevel s1 = topLevel s - int (length (takeWhile ?P (rev xs)))"
    using operator_while_contents [OF c, of "[c]" out] by auto
  have "length (takeWhile ?P (rev xs)) \<le> length xs"
    using length_takeWhile_le [of ?P "rev xs"] by simp
  moreover have "length xs = nat (topLevel s + 1)"
    using assms(3) length_contents [of s] by simp
  ultimately have low: "- 1 \<le> topLevel s1"
    using s1(3) assms(2) by linarith
  have p: "contents (InfixToPostfixStack_push [c] s1) =
             map Some (rev (dropWhile ?P (rev xs)) @ [[c]])"
    using contents_InfixToPostfixStack_push [OF low, of "[c]"] s1(2) by simp
  have f: "convert_for (c # cs) s out =
             convert_for cs (InfixToPostfixStack_push [c] s1)
               (out @ concat (takeWhile ?P (rev xs)))"
    using assms(1) s1(1) by (auto simp: isOperator_def)
  have tab: "precedence ch =
           (if ch = ''*'' \<or> ch = ''/'' then 2 else if ch = ''+'' \<or> ch = ''-'' then 1 else 0)"
    by (simp add: precedence_def)
  have op1: "isOperator ch = (ch = ''+'' \<or> ch = ''-'' \<or> ch = ''*'' \<or> ch = ''/'')"
    by (simp add: isOperator_def)
  have op2: "isOperator ch = (0 < precedence ch)"
    by (simp add: isOperator_def precedence_def)
  show ?thesis
    using s1(1,2) p f tab op1 op2 convert_equal_precedence by blast
qed

theorem operator_scan_witness:
  "isOperator ''-'' \<and> - 1 \<le> topLevel plus_times_stack \<and>
   contents plus_times_stack = map Some [''+'', ''*''] \<and>
   (\<exists>s1. operator_while ''-'' plus_times_stack ''ABC'' = (s1, ''ABC*+'') \<and>
         contents s1 = [] \<and>
         convert_for ''-'' plus_times_stack ''ABC'' =
           convert_for [] (InfixToPostfixStack_push ''-'' s1) ''ABC*+'' \<and>
         contents (InfixToPostfixStack_push ''-'' s1) = [Some ''-'']) \<and>
   precedence ''^'' = 0 \<and> \<not> isOperator ''^''"
proof -
  have h1: "isOperator [CHR ''-'']"
    by (simp add: isOperator_def)
  have h2: "- 1 \<le> topLevel plus_times_stack"
    by (simp add: plus_times_stack_top)
  have h3: "contents plus_times_stack = map Some [''+'', ''*'']"
    by (simp add: plus_times_stack_contents)
  note w = operator_scan [OF h1 h2 h3, of "''ABC''" "[]" "''^''"]
  have tw: "takeWhile (\<lambda>t. precedence ''-'' \<le> precedence t) (rev [''+'', ''*'']) = [''*'', ''+'']"
    and dw: "dropWhile (\<lambda>t. precedence ''-'' \<le> precedence t) (rev [''+'', ''*'']) = []"
    by (simp_all add: precedence_def)
  have a: "\<exists>s1. operator_while ''-'' plus_times_stack ''ABC'' = (s1, ''ABC*+'') \<and>
         contents s1 = [] \<and>
         convert_for ''-'' plus_times_stack ''ABC'' =
           convert_for [] (InfixToPostfixStack_push ''-'' s1) ''ABC*+'' \<and>
         contents (InfixToPostfixStack_push ''-'' s1) = [Some ''-'']"
    using w [unfolded tw dw] by simp
  have b: "precedence ''^'' = 0" and c: "\<not> isOperator ''^''"
    using w by simp_all
  show ?thesis
    using h1 h2 h3 a b c by simp
qed

section \<open>The balance checker\<close>

lemma topLevel_BalancedStack_push: "topLevel (BalancedStack_push v s) = topLevel s + 1"
  by (simp add: BalancedStack_push_def Let_def)

lemma contents_BalancedStack_push:
  "- 1 \<le> topLevel s \<Longrightarrow> contents (BalancedStack_push v s) = contents s @ [Some v]"
  by (simp add: contents_def BalancedStack_push_def Let_def upto_snoc)

lemma open_kind_glyph: "open_kind c = Some k \<Longrightarrow> open_glyph k = c"
  by (auto split: if_splits)

lemma isBalanced_spec_scan:
  "- 1 \<le> topLevel s \<Longrightarrow> contents s = map (\<lambda>k. Some [open_glyph k]) (rev ks) \<Longrightarrow>
   fst (isBalanced e s) = spec_scan e ks"
proof (induction e arbitrary: s ks)
  case Nil
  then show ?case
    using contents_Nil_iff [of s] by auto
next
  case (Cons c cs)
  consider (opener) k where "open_kind c = Some k"
    | (closer) k where "open_kind c = None" "close_kind c = Some k"
    | (other) "open_kind c = None" "close_kind c = None"
    by (cases "open_kind c"; cases "close_kind c") auto
  then show ?case
  proof cases
    case opener
    then have g: "open_glyph k = c" and o: "c = CHR ''('' \<or> c = CHR ''{'' \<or> c = CHR ''[''"
      by (auto split: if_splits)
    have "contents (BalancedStack_push [c] s) = map (\<lambda>k. Some [open_glyph k]) (rev (k # ks))"
      using Cons.prems g by (simp add: contents_BalancedStack_push)
    moreover have "- 1 \<le> topLevel (BalancedStack_push [c] s)"
      using Cons.prems(1) by (simp add: topLevel_BalancedStack_push)
    ultimately have "fst (isBalanced cs (BalancedStack_push [c] s)) = spec_scan cs (k # ks)"
      by (intro Cons.IH)
    then show ?thesis
      using opener o by simp
  next
    case closer
    then have o: "\<not> (c = CHR ''('' \<or> c = CHR ''{'' \<or> c = CHR ''['')"
      and cl: "c = CHR '')'' \<or> c = CHR ''}'' \<or> c = CHR '']''"
      by (auto split: if_splits)
    show ?thesis
    proof (cases ks)
      case Nil
      then have "isEmpty s"
        using Cons.prems(2) by (simp add: contents_Nil_iff)
      then show ?thesis
        using closer o cl Nil by simp
    next
      case (Cons k' ks')
      then have c: "contents s = map (\<lambda>k. Some [open_glyph k]) (rev ks') @ [Some [open_glyph k']]"
        using Cons.prems(2) by simp
      note t = contents_snoc_top [OF c]
      have low: "- 1 \<le> topLevel (snd (pop s))"
        using Cons.prems(1) by (rule topLevel_pop_ge)
      have IH: "fst (isBalanced cs (snd (pop s))) = spec_scan cs ks'"
        using low t(4) by (rule Cons.IH)
      let ?M = "(c = CHR '')'' \<and> returned (fst (pop s)) \<noteq> Some ''('') \<or>
                (c = CHR ''}'' \<and> returned (fst (pop s)) \<noteq> Some ''{'') \<or>
                (c = CHR '']'' \<and> returned (fst (pop s)) \<noteq> Some ''['')"
      have m: "?M \<longleftrightarrow> k' \<noteq> k"
        using closer(2) t(3) by (cases k'; cases k) (auto split: if_splits)
      have step: "isBalanced (c # cs) s =
                    (if ?M then (False, snd (pop s)) else isBalanced cs (snd (pop s)))"
        using o cl t(1) by (simp add: split_beta)
      have spec: "spec_scan (c # cs) ks = (if k' = k then spec_scan cs ks' else False)"
        using closer Cons by (simp del: open_kind.simps close_kind.simps)
      show ?thesis
        unfolding step spec using m IH by (cases "k' = k") auto
    qed
  next
    case other
    then have "\<not> (c = CHR ''('' \<or> c = CHR ''{'' \<or> c = CHR ''['')"
      and "\<not> (c = CHR '')'' \<or> c = CHR ''}'' \<or> c = CHR '']'')"
      by (auto split: if_splits)
    then show ?thesis
      using other Cons.IH [OF Cons.prems] by simp
  qed
qed

lemma isBalanced_on_empty:
  "topLevel s = - 1 \<Longrightarrow> fst (isBalanced e s) = is_balanced_spec e"
  using isBalanced_spec_scan [of s "[]" e]
  by (simp add: is_balanced_spec_def contents_def)

text \<open>
  C4. Started on an empty stack, \<^verbatim>\<open>isBalanced\<close> computes, for every expression, what the
  scan of the specification computes: left to right, an opening bracket is pushed, a
  closing bracket fails at once on an empty stack or on a popped bracket of another
  kind, any other character is skipped, and at the end the result is whether the stack
  is empty. In particular \<^verbatim>\<open>()\<close> and \<^verbatim>\<open>({[]})\<close> are balanced and \<^verbatim>\<open>([)]\<close> and \<^verbatim>\<open>(()\<close> are
  not.
\<close>

theorem isBalanced_refines_spec:
  "fst (isBalanced expression new_stack) = is_balanced_spec expression \<and>
   fst (isBalanced ''()'' new_stack) \<and>
   fst (isBalanced ''({[]})'' new_stack) \<and>
   \<not> fst (isBalanced ''([)]'' new_stack) \<and>
   \<not> fst (isBalanced ''(()'' new_stack)"
proof -
  have "fst (isBalanced expression new_stack) = is_balanced_spec expression"
    by (rule isBalanced_on_empty) (simp add: new_stack_def)
  moreover have "fst (isBalanced ''()'' new_stack)" by code_simp
  moreover have "fst (isBalanced ''({[]})'' new_stack)" by code_simp
  moreover have "\<not> fst (isBalanced ''([)]'' new_stack)" by code_simp
  moreover have "\<not> fst (isBalanced ''(()'' new_stack)" by code_simp
  ultimately show ?thesis by blast
qed

section \<open>The shared stack instances\<close>

lemma same_elements_empty: "topLevel s = - 1 \<Longrightarrow> topLevel t = - 1 \<Longrightarrow> same_elements s t"
  by (simp add: same_elements_def contents_def)

lemma same_elements_top:
  assumes "same_elements s t"
  shows "isEmpty s = isEmpty t" and "returned (fst (pop s)) = returned (fst (pop t))"
    and "returned (peek s) = returned (peek t)"
    and "same_elements (snd (pop s)) (snd (pop t))"
proof -
  show e: "isEmpty s = isEmpty t"
    using assms by (simp add: same_elements_def isEmpty_def)
  have "returned (fst (pop s)) = returned (fst (pop t)) \<and>
        same_elements (snd (pop s)) (snd (pop t))"
  proof (cases "isEmpty s")
    case True
    then show ?thesis
      using assms e by (simp add: isEmpty_def pop_def)
  next
    case False
    then have s: "0 \<le> topLevel s" and t: "0 \<le> topLevel t"
      using e by (simp_all add: isEmpty_def)
    have "contents (snd (pop s)) @ [returned (fst (pop s))] =
          contents (snd (pop t)) @ [returned (fst (pop t))]"
      using contents_pop [OF s] contents_pop [OF t] assms by (simp add: same_elements_def)
    then show ?thesis
      using assms s by (simp add: same_elements_def topLevel_pop)
  qed
  then show "returned (fst (pop s)) = returned (fst (pop t))"
    and "same_elements (snd (pop s)) (snd (pop t))"
    by simp_all
  then show "returned (peek s) = returned (peek t)"
    by (simp add: peek_pop)
qed

lemma same_elements_InfixToPostfixStack_push:
  "same_elements s t \<Longrightarrow>
   same_elements (InfixToPostfixStack_push v s) (InfixToPostfixStack_push v t)"
  by (simp add: same_elements_def contents_InfixToPostfixStack_push
      topLevel_InfixToPostfixStack_push)

lemma close_while_same:
  "same_elements s t \<Longrightarrow> nat (topLevel s + 1) = n \<Longrightarrow>
   rel_option (\<lambda>a b. same_elements (fst a) (fst b) \<and> snd a = snd b)
     (close_while s out) (close_while t out)"
proof (induction n arbitrary: s t out)
  case 0
  then have "isEmpty s" and "isEmpty t"
    using same_elements_top(1) [OF 0(1)] by (simp_all add: isEmpty_def)
  then show ?case
    by (simp add: close_while_empty)
next
  case (Suc n)
  note st = same_elements_top [OF Suc.prems(1)]
  show ?case
  proof (cases "returned (peek s) \<noteq> Some ''('' \<and> returned (peek s) \<noteq> Some ''{'' \<and>
      returned (peek s) \<noteq> Some ''[''")
    case True
    have s: "close_while s out =
               close_while (snd (pop s)) (out @ js_to_string (returned (fst (pop s))))"
      using True by (subst close_while.simps) simp
    have t: "close_while t out =
               close_while (snd (pop t)) (out @ js_to_string (returned (fst (pop s))))"
      using True st by (subst close_while.simps) simp
    have "nat (topLevel (snd (pop s)) + 1) = n"
      using Suc.prems(2) by (auto simp: topLevel_pop)
    from Suc.IH [OF st(4) this] show ?thesis
      unfolding s t .
  next
    case False
    have s: "close_while s out = Some (s, out)"
      using False by (subst close_while.simps) auto
    have t: "close_while t out = Some (t, out)"
      using False st by (subst close_while.simps) auto
    show ?thesis
      unfolding s t using Suc.prems(1) by simp
  qed
qed

lemma operator_while_same:
  "same_elements s t \<Longrightarrow> nat (topLevel s + 1) = n \<Longrightarrow>
   same_elements (fst (operator_while ch s out)) (fst (operator_while ch t out)) \<and>
   snd (operator_while ch s out) = snd (operator_while ch t out)"
proof (induction n arbitrary: s t out)
  case 0
  then have "isEmpty s" and "isEmpty t"
    using same_elements_top(1) [OF 0(1)] by (simp_all add: isEmpty_def)
  then have "operator_while ch s out = (s, out)" and "operator_while ch t out = (t, out)"
    by (simp_all add: operator_while.simps)
  then show ?case
    using 0 by simp
next
  case (Suc n)
  note st = same_elements_top [OF Suc.prems(1)]
  show ?case
  proof (cases "\<not> isEmpty s \<and> precedence ch \<le> precedence (or_empty (returned (peek s)))")
    case True
    have s: "operator_while ch s out =
               operator_while ch (snd (pop s)) (out @ js_to_string (returned (fst (pop s))))"
      using True by (subst operator_while.simps) simp
    have t: "operator_while ch t out =
               operator_while ch (snd (pop t)) (out @ js_to_string (returned (fst (pop s))))"
      using True st by (subst operator_while.simps) simp
    have "nat (topLevel (snd (pop s)) + 1) = n"
      using Suc.prems(2) by (auto simp: topLevel_pop)
    from Suc.IH [OF st(4) this] show ?thesis
      unfolding s t .
  next
    case False
    have s: "operator_while ch s out = (s, out)"
      using False by (subst operator_while.simps) auto
    have t: "operator_while ch t out = (t, out)"
      using False st by (subst operator_while.simps) auto
    show ?thesis
      unfolding s t using Suc.prems(1) by simp
  qed
qed

lemma drain_while_same:
  "same_elements s t \<Longrightarrow> nat (topLevel s + 1) = n \<Longrightarrow>
   topLevel (fst (drain_while s out)) = - 1 \<and>
   snd (drain_while s out) = snd (drain_while t out)"
proof (induction n arbitrary: s t out)
  case 0
  then have "isEmpty s" and "isEmpty t"
    using same_elements_top(1) [OF 0(1)] by (simp_all add: isEmpty_def)
  then have "drain_while s out = (s, out)" and "drain_while t out = (t, out)"
    by (simp_all add: drain_while.simps)
  then show ?case
    using 0 by (simp add: same_elements_def)
next
  case (Suc n)
  note st = same_elements_top [OF Suc.prems(1)]
  have ne: "\<not> isEmpty s"
    using Suc.prems(2) by (simp add: isEmpty_def)
  have s: "drain_while s out =
             drain_while (snd (pop s)) (out @ js_to_string (returned (fst (pop s))))"
    using ne by (subst drain_while.simps) simp
  have t: "drain_while t out =
             drain_while (snd (pop t)) (out @ js_to_string (returned (fst (pop s))))"
    using ne st by (subst drain_while.simps) simp
  have "nat (topLevel (snd (pop s)) + 1) = n"
    using Suc.prems(2) by (auto simp: topLevel_pop)
  from Suc.IH [OF st(4) this] show ?case
    unfolding s t .
qed

lemma convert_for_same:
  "same_elements s t \<Longrightarrow>
   rel_option (\<lambda>a b. same_elements (fst a) (fst b) \<and> snd a = snd b)
     (convert_for e s out) (convert_for e t out)"
proof (induction e arbitrary: s t out)
  case Nil
  then show ?case by simp
next
  case (Cons c cs)
  let ?R = "\<lambda>a b :: string stack \<times> string. same_elements (fst a) (fst b) \<and> snd a = snd b"
  consider (opener) "c = CHR ''('' \<or> c = CHR ''{'' \<or> c = CHR ''[''"
    | (closer) "\<not> (c = CHR ''('' \<or> c = CHR ''{'' \<or> c = CHR ''['')"
        "c = CHR '')'' \<or> c = CHR ''}'' \<or> c = CHR '']''"
    | (operator) "\<not> (c = CHR ''('' \<or> c = CHR ''{'' \<or> c = CHR ''['')"
        "\<not> (c = CHR '')'' \<or> c = CHR ''}'' \<or> c = CHR '']'')" "isOperator [c]"
    | (operand) "\<not> (c = CHR ''('' \<or> c = CHR ''{'' \<or> c = CHR ''['')"
        "\<not> (c = CHR '')'' \<or> c = CHR ''}'' \<or> c = CHR '']'')" "\<not> isOperator [c]"
    by blast
  then show ?case
  proof cases
    case opener
    then show ?thesis
      using Cons.IH [OF same_elements_InfixToPostfixStack_push [OF Cons.prems]] by simp
  next
    case closer
    have r: "rel_option ?R (close_while s out) (close_while t out)"
      using Cons.prems by (rule close_while_same) simp
    show ?thesis
    proof (cases "close_while s out")
      case None
      then have "close_while t out = None"
        using r by (cases "close_while t out") simp_all
      then show ?thesis
        using closer None by simp
    next
      case (Some a)
      then obtain b where b: "close_while t out = Some b" and ab: "?R a b"
        using r by (cases "close_while t out") auto
      have "rel_option ?R (convert_for cs (snd (pop (fst a))) (snd a))
              (convert_for cs (snd (pop (fst b))) (snd a))"
        using ab by (intro Cons.IH same_elements_top(4)) simp
      then show ?thesis
        using closer Some b ab by (simp add: split_beta)
    qed
  next
    case operator
    have o: "same_elements (fst (operator_while [c] s out)) (fst (operator_while [c] t out))"
      and "snd (operator_while [c] s out) = snd (operator_while [c] t out)"
      using operator_while_same [OF Cons.prems refl, of "[c]" out] by simp_all
    then show ?thesis
      using operator Cons.IH [OF same_elements_InfixToPostfixStack_push [OF o]]
      by (simp add: split_beta)
  next
    case operand
    then show ?thesis
      using Cons.IH [OF Cons.prems] by simp
  qed
qed

lemma convert_same:
  assumes "same_elements s t"
  shows "map_option fst (convert e s) = map_option fst (convert e t)"
    and "(case convert e s of None \<Rightarrow> True | Some (out, s') \<Rightarrow> topLevel s' = - 1)"
proof -
  let ?R = "\<lambda>a b :: string stack \<times> string. same_elements (fst a) (fst b) \<and> snd a = snd b"
  have r: "rel_option ?R (convert_for e s '''') (convert_for e t '''')"
    using assms by (rule convert_for_same)
  have "map_option fst (convert e s) = map_option fst (convert e t) \<and>
        (case convert e s of None \<Rightarrow> True | Some (out, s') \<Rightarrow> topLevel s' = - 1)"
  proof (cases "convert_for e s ''''")
    case None
    then have "convert_for e t '''' = None"
      using r by (cases "convert_for e t ''''") simp_all
    then show ?thesis
      using None by (simp add: convert_def)
  next
    case (Some a)
    then obtain b where b: "convert_for e t '''' = Some b" and ab: "?R a b"
      using r by (cases "convert_for e t ''''") auto
    have "topLevel (fst (drain_while (fst a) (snd a))) = - 1 \<and>
          snd (drain_while (fst a) (snd a)) = snd (drain_while (fst b) (snd a))"
      using ab by (intro drain_while_same [OF _ refl]) simp
    then show ?thesis
      using Some b ab by (simp add: convert_def split_beta)
  qed
  then show "map_option fst (convert e s) = map_option fst (convert e t)"
    and "(case convert e s of None \<Rightarrow> True | Some (out, s') \<Rightarrow> topLevel s' = - 1)"
    by simp_all
qed

lemma isBalanced_true_empty:
  "- 1 \<le> topLevel s \<Longrightarrow> fst (isBalanced e s) \<Longrightarrow> topLevel (snd (isBalanced e s)) = - 1"
proof (induction e arbitrary: s)
  case Nil
  then show ?case by (simp add: isEmpty_def)
next
  case (Cons c cs)
  consider (opener) "c = CHR ''('' \<or> c = CHR ''{'' \<or> c = CHR ''[''"
    | (closer) "\<not> (c = CHR ''('' \<or> c = CHR ''{'' \<or> c = CHR ''['')"
        "c = CHR '')'' \<or> c = CHR ''}'' \<or> c = CHR '']''"
    | (other) "\<not> (c = CHR ''('' \<or> c = CHR ''{'' \<or> c = CHR ''['')"
        "\<not> (c = CHR '')'' \<or> c = CHR ''}'' \<or> c = CHR '']'')"
    by blast
  then show ?case
  proof cases
    case opener
    have step: "isBalanced (c # cs) s = isBalanced cs (BalancedStack_push [c] s)"
      using opener by simp
    have "- 1 \<le> topLevel (BalancedStack_push [c] s)"
      using Cons.prems(1) by (simp add: topLevel_BalancedStack_push)
    then show ?thesis
      using Cons.prems(2) unfolding step by (rule Cons.IH)
  next
    case closer
    let ?M = "(c = CHR '')'' \<and> returned (fst (pop s)) \<noteq> Some ''('') \<or>
              (c = CHR ''}'' \<and> returned (fst (pop s)) \<noteq> Some ''{'') \<or>
              (c = CHR '']'' \<and> returned (fst (pop s)) \<noteq> Some ''['')"
    have step: "isBalanced (c # cs) s =
                  (if isEmpty s then (False, s)
                   else if ?M then (False, snd (pop s)) else isBalanced cs (snd (pop s)))"
      using closer by (simp add: split_beta)
    have ne: "\<not> isEmpty s" and nm: "\<not> ?M"
      using Cons.prems(2) unfolding step by (auto split: if_splits)
    have step': "isBalanced (c # cs) s = isBalanced cs (snd (pop s))"
      unfolding step using ne nm by auto
    have "- 1 \<le> topLevel (snd (pop s))"
      using Cons.prems(1) by (rule topLevel_pop_ge)
    then show ?thesis
      using Cons.prems(2) unfolding step' by (rule Cons.IH)
  next
    case other
    have step: "isBalanced (c # cs) s = isBalanced cs s"
      using other by simp
    show ?thesis
      using Cons.prems unfolding step by (rule Cons.IH)
  qed
qed

text \<open>
  C3. The code on the module's one \<^verbatim>\<open>balancedStack\<close>. On a new stack \<^verbatim>\<open>)\<close> is not
  balanced; the call on \<^verbatim>\<open>(\<close> returns false and leaves its bracket on the stack, and
  the same input \<^verbatim>\<open>)\<close> is then reported balanced. After the three calls of the
  module's own demonstration, on \<^verbatim>\<open>()\<close>, \<^verbatim>\<open>({[]})\<close> and \<^verbatim>\<open>([)]\<close>, the last of which
  returns false with one bracket left behind, \<^verbatim>\<open>()\<close> is reported unbalanced, though on
  a new stack it is balanced.
\<close>

theorem isBalanced_shared_stack_leak:
  "\<not> fst (isBalanced '')'' new_stack) \<and>
   \<not> fst (isBalanced ''('' new_stack) \<and>
   fst (isBalanced '')'' (snd (isBalanced ''('' new_stack))) \<and>
   fst (isBalanced ''()'' new_stack) \<and>
   \<not> fst (isBalanced ''()''
           (snd (isBalanced ''([)]''
             (snd (isBalanced ''({[]})'' (snd (isBalanced ''()'' new_stack)))))))"
  by code_simp

text \<open>
  What does hold on the shared instances. The result of a call is determined by its
  argument whenever the stack is empty when the call starts, whatever its history and
  its cells above the top hold: on any two such stacks \<^verbatim>\<open>convert\<close> returns the same
  string or returns on neither, and \<^verbatim>\<open>isBalanced\<close> returns the same answer. A call of
  \<^verbatim>\<open>convert\<close> that returns leaves the stack empty, and so does a call of \<^verbatim>\<open>isBalanced\<close>
  that starts on an empty stack and returns true.
\<close>

lemma results_determined_on_empty_stack:
  assumes "topLevel s = - 1" and "topLevel t = - 1"
  shows "map_option fst (convert e s) = map_option fst (convert e t) \<and>
         (case convert e s of None \<Rightarrow> True | Some (out, s') \<Rightarrow> topLevel s' = - 1) \<and>
         fst (isBalanced e s) = fst (isBalanced e t) \<and>
         (fst (isBalanced e s) \<longrightarrow> topLevel (snd (isBalanced e s)) = - 1)"
proof -
  have st: "same_elements s t"
    using assms by (rule same_elements_empty)
  have "fst (isBalanced e s) = fst (isBalanced e t)"
    using assms by (simp add: isBalanced_on_empty)
  moreover have "fst (isBalanced e s) \<longrightarrow> topLevel (snd (isBalanced e s)) = - 1"
    using assms(1) isBalanced_true_empty [of s e] by simp
  ultimately show ?thesis
    using convert_same [OF st, of e] by simp
qed

lemma convert_leaves_drained_stack:
  "convert ''A+B'' new_stack = Some (''AB+'', drained_stack)"
  by (simp add: convert_def drained_stack_def isOperator_def operator_while.simps
      drain_while.simps isEmpty_def pop_def InfixToPostfixStack_push_def new_stack_def Let_def)

lemma drained_stack_top: "topLevel drained_stack = - 1"
  and drained_stack_history: "poppedHistory drained_stack = [Some ''+'']"
  by (simp_all add: drained_stack_def pop_def InfixToPostfixStack_push_def new_stack_def Let_def)

lemma results_determined_on_empty_stack_example:
  "topLevel (new_stack :: string stack) = - 1 \<and> topLevel drained_stack = - 1 \<and>
   poppedHistory drained_stack = [Some ''+''] \<and>
   map_option fst (convert ''(A+B)'' drained_stack) = Some ''AB+'' \<and>
   map_option fst (convert ''(A+B)'' new_stack) = Some ''AB+'' \<and>
   map_option (\<lambda>r. topLevel (snd r)) (convert ''(A+B)'' new_stack) = Some (- 1) \<and>
   fst (isBalanced ''(A+B)'' drained_stack) \<and>
   fst (isBalanced ''(A+B)'' new_stack) \<and>
   topLevel (snd (isBalanced ''(A+B)'' new_stack)) = - 1"
proof -
  have h1: "topLevel (new_stack :: string stack) = - 1"
    by (simp add: new_stack_def)
  note w = results_determined_on_empty_stack [OF h1 drained_stack_top, of "''(A+B)''"]
  have c: "map_option fst (convert ''(A+B)'' new_stack) = Some ''AB+''"
    by code_simp
  have b: "fst (isBalanced ''(A+B)'' new_stack)"
    by code_simp
  have c': "map_option fst (convert ''(A+B)'' drained_stack) = Some ''AB+''"
    using w c by simp
  have e: "map_option (\<lambda>r. topLevel (snd r)) (convert ''(A+B)'' new_stack) = Some (- 1)"
    using w c by (cases "convert ''(A+B)'' new_stack") auto
  have b': "fst (isBalanced ''(A+B)'' drained_stack)"
    using w b by simp
  have f: "topLevel (snd (isBalanced ''(A+B)'' new_stack)) = - 1"
    using w b by simp
  show ?thesis
    using h1 drained_stack_top drained_stack_history c c' e b b' f by simp
qed

text \<open>
  For \<^verbatim>\<open>convert\<close> the shared instance does no harm: every call that returns has drained
  the stack, so in any run of calls from an empty stack each call returns what it
  returns on a new stack, whatever calls came before it.
\<close>

lemma convert_calls_deterministic:
  "topLevel s = - 1 \<Longrightarrow>
   map_option fst (convert_calls es s) =
     those (map (\<lambda>e. map_option fst (convert e new_stack)) es)"
proof (induction es arbitrary: s)
  case Nil
  then show ?case by simp
next
  case (Cons e es)
  have n: "topLevel (new_stack :: string stack) = - 1"
    by (simp add: new_stack_def)
  note c = convert_same [OF same_elements_empty [OF Cons.prems n], of e]
  show ?case
  proof (cases "convert e s")
    case None
    then have "map_option fst (convert e new_stack) = None"
      using c(1) by simp
    then show ?thesis
      using None by simp
  next
    case (Some r)
    then have top: "topLevel (snd r) = - 1"
      using c(2) by (simp add: split_beta)
    let ?f = "\<lambda>e. map_option fst (convert e new_stack)"
    have fe: "?f e = Some (fst r)"
      using c(1) Some by simp
    have rhs: "those (map ?f (e # es)) = map_option ((#) (fst r)) (those (map ?f es))"
      by (simp only: list.map those.simps fe option.case)
    have lhs: "map_option fst (convert_calls (e # es) s) =
                 map_option ((#) (fst r)) (map_option fst (convert_calls es (snd r)))"
      using Some by (cases "convert_calls es (snd r)") (auto simp: split_beta)
    show ?thesis
      unfolding lhs rhs Cons.IH [OF top] ..
  qed
qed

end
